theory Spec2Isabelle
  imports Main "HOL-Library.Finite_Map"
begin

section \<open>Data model\<close>

text \<open>
  Values stored in a MongoDB document of the collection, as far as \<open>telegram_bot.py\<close>
  inspects them. An element of \<open>image_links\<close> is tested with \<open>isinstance(img, str)\<close>
  and \<open>isinstance(img, dict)\<close>; \<open>Num\<close> and \<open>Null\<close> stand for the values that are
  neither. A dict is a finite map from keys to values, so that HOL equality on
  \<open>pyval\<close> is Python's \<open>==\<close> (dicts compare by content, not by insertion order).
\<close>

datatype pyval =
    Str string
  | Num int
  | Null
  | Dict "(string, pyval) fmap"

text \<open>
  A user document. \<open>_id\<close> is always present, \<open>access_key\<close> is the field queried by
  \<open>find_one\<close>; \<open>name\<close> and \<open>image_links\<close> are read with \<open>.get\<close> and may be absent.
\<close>

record doc =
  doc_id :: string
  access_key :: string
  name :: "string option"
  image_links :: "pyval list option"

text \<open>The texts the bot writes, one constructor per literal of the source.\<close>

datatype message =
    Welcome string          \<comment> \<open>"Welcome {user_name}! Your activation key has been validated. ..."\<close>
  | InvalidKey              \<comment> \<open>"Invalid activation key. Please try again or contact support."\<close>
  | LoggedOut               \<comment> \<open>"You have been logged out. Use /start to login again."\<close>
  | SessionExpired          \<comment> \<open>"Your session has expired. Please use /start to begin again."\<close>
  | KeyRevoked              \<comment> \<open>"Your activation key is no longer valid. Please contact support."\<close>
  | NoImagesFound           \<comment> \<open>"No images found for your account. ..."\<close>
  | NoImagesToday           \<comment> \<open>"No images available for today. Check back later!"\<close>
  | Sending nat             \<comment> \<open>"Sending {len(today_images)} images..."\<close>
  | Failed nat string       \<comment> \<open>"Failed to retrieve image {i+1}: {str(e)}"\<close>
  | AllDelivered            \<comment> \<open>"All images delivered! Use the buttons below for more options."\<close>
  | FoundNew                \<comment> \<open>"Found new or updated images! Fetching updates..."\<close>
  | UpToDate                \<comment> \<open>"No new images found. You're up to date!"\<close>

text \<open>
  The calls that leave the process: the chat transport (\<open>reply_text\<close>,
  \<open>edit_message_text\<close>, \<open>delete_message\<close>, \<open>send_photo\<close>, \<open>send_message\<close>) and the
  content download (\<open>requests.get\<close> followed by \<open>raise_for_status\<close>). Each of them
  either returns (for a send or an edit: the id of the message) or raises.
\<close>

datatype call =
    ReplyText message                \<comment> \<open>\<open>update.message.reply_text(text)\<close>\<close>
  | EditText message                \<comment> \<open>\<open>query.edit_message_text(text)\<close>\<close>
  | Delete int int                \<comment> \<open>\<open>bot.delete_message(chat_id, message_id)\<close>\<close>
  | Fetch pyval                   \<comment> \<open>\<open>requests.get(img_url)\<close>; \<open>response.raise_for_status()\<close>\<close>
  | SendPhoto int nat nat         \<comment> \<open>\<open>bot.send_photo(chat_id, content, "Image {i+1}/{n}")\<close>\<close>
  | SendMessage int message          \<comment> \<open>\<open>bot.send_message(chat_id, text)\<close>\<close>

datatype reply = Ok int | Err string

text \<open>
  The log of what a handler did outside the process, oldest first: the queries to the
  collection and the calls above with what they answered.
\<close>

datatype event = Lookup string | Call call reply

text \<open>
  What a handler cannot control: the collection, the clock (\<open>datetime.now()\<close>, and its
  \<open>strftime('%Y-%m-%d')\<close>), and the answer \<open>net n c\<close> to call \<open>c\<close> issued when the log
  holds \<open>n\<close> events. The collection is written by others while a handler awaits its
  calls: \<open>collection n\<close> is what it holds when the log holds \<open>n\<close> events, so two
  lookups of one run may differ. The clock is read once by a handler.
\<close>

record env =
  collection :: "nat \<Rightarrow> doc list"
  now :: nat
  today :: string
  net :: "nat \<Rightarrow> call \<Rightarrow> reply"

text \<open>
  \<open>context.user_data\<close>: a dict with the six keys the source writes, each absent
  (\<open>None\<close>) or present. \<open>trace\<close> is the log; it is not part of the dict.
\<close>

record session =
  activation_key :: "string option"
  user_id :: "string option"
  user_name :: "string option"
  user_data :: "doc option"
  image_message_ids :: "int list option"
  last_updated :: "nat option"
  trace :: "event list"

datatype exn = KeyError string | CallError string

datatype 'a result = Returned 'a | Raised exn

datatype conv_state = WAITING_FOR_KEY | END

section \<open>Primitives\<close>

text \<open>\<open>str.strip()\<close>: leading and trailing whitespace removed. A \<open>char\<close> is a code
  point below 256; there the whitespace of \<open>str.isspace\<close> is the codes 9 to 13, 28 to
  32, 133 (U+0085) and 160 (U+00A0).\<close>

definition is_space :: "char \<Rightarrow> bool" where
  "is_space c =
     (let n = of_char c :: nat
      in (9 \<le> n \<and> n \<le> 13) \<or> (28 \<le> n \<and> n \<le> 32) \<or> n = 133 \<or> n = 160)"

definition strip :: "string \<Rightarrow> string" where
  "strip s = rev (dropWhile is_space (rev (dropWhile is_space s)))"

text \<open>\<open>collection.find_one({"access_key": key})\<close>: the first document whose
  \<open>access_key\<close> is the key, or nothing, in the collection as it is at the time of the
  query.\<close>

definition find_by_key :: "env \<Rightarrow> nat \<Rightarrow> string \<Rightarrow> doc option" where
  "find_by_key env n key = find (\<lambda>d. access_key d = key) (collection env n)"

definition find_one :: "env \<Rightarrow> string \<Rightarrow> session \<Rightarrow> doc option \<times> session" where
  "find_one env key s =
     (find_by_key env (length (trace s)) key, s\<lparr>trace := trace s @ [Lookup key]\<rparr>)"

text \<open>An outside call: it is logged with its answer.\<close>

definition call :: "env \<Rightarrow> call \<Rightarrow> session \<Rightarrow> reply \<times> session" where
  "call env c s =
     (let r = net env (length (trace s)) c in (r, s\<lparr>trace := trace s @ [Call c r]\<rparr>))"

text \<open>An awaited call outside any \<open>try\<close>, whose result is not used: the handler goes on
  or the exception leaves it.\<close>

definition say :: "env \<Rightarrow> call \<Rightarrow> session \<Rightarrow> unit result \<times> session" where
  "say env c s =
     (case call env c s of
        (Ok _, s') \<Rightarrow> (Returned (), s')
      | (Err e, s') \<Rightarrow> (Raised (CallError e), s'))"

text \<open>\<open>doc.get('image_links', [])\<close>.\<close>

definition links_of :: "doc \<Rightarrow> pyval list" where
  "links_of d = (case image_links d of None \<Rightarrow> [] | Some l \<Rightarrow> l)"

section \<open>The handlers\<close>

subsection \<open>\<open>validate_key\<close>\<close>

text \<open>
  The text of the message is stripped and stored under \<open>activation_key\<close>, then looked
  up. The result is the state the conversation handler moves to.
\<close>

definition validate_key :: "env \<Rightarrow> string \<Rightarrow> session \<Rightarrow> conv_state result \<times> session" where
  "validate_key env message_text s =
     (let key = strip message_text;
          s1 = s\<lparr>activation_key := Some key\<rparr>
      in case find_one env key s1 of
           (Some user_doc, s2) \<Rightarrow>
             (let uname = (case name user_doc of None \<Rightarrow> ''User'' | Some n \<Rightarrow> n);
                  s3 = s2\<lparr>user_id := Some (doc_id user_doc),
                          user_name := Some uname,
                          user_data := Some user_doc,
                          image_message_ids := Some [],
                          last_updated := Some (now env)\<rparr>
              in case say env (ReplyText (Welcome uname)) s3 of
                   (Returned _, s4) \<Rightarrow> (Returned END, s4)
                 | (Raised e, s4) \<Rightarrow> (Raised e, s4))
         | (None, s2) \<Rightarrow>
             (case say env (ReplyText InvalidKey) s2 of
                (Returned _, s3) \<Rightarrow> (Returned WAITING_FOR_KEY, s3)
              | (Raised e, s3) \<Rightarrow> (Raised e, s3)))"

subsection \<open>\<open>clear_previous_images\<close>\<close>

text \<open>The \<open>for\<close> loop: one delete per id; an exception of the delete is caught and
  logged, and the loop goes on.\<close>

fun delete_loop :: "env \<Rightarrow> int \<Rightarrow> int list \<Rightarrow> session \<Rightarrow> session" where
  "delete_loop env chat_id [] s = s"
| "delete_loop env chat_id (msg_id # rest) s =
     delete_loop env chat_id rest (snd (call env (Delete chat_id msg_id) s))"

text \<open>Nothing happens when the key \<open>image_message_ids\<close> is absent or its list is
  empty; otherwise the list is reset after the loop.\<close>

definition clear_previous_images :: "env \<Rightarrow> int \<Rightarrow> session \<Rightarrow> session" where
  "clear_previous_images env chat_id s =
     (case image_message_ids s of
        None \<Rightarrow> s
      | Some [] \<Rightarrow> s
      | Some (m # ms) \<Rightarrow> (delete_loop env chat_id (m # ms) s)\<lparr>image_message_ids := Some []\<rparr>)"

subsection \<open>\<open>end_session\<close> and \<open>logout_command\<close>\<close>

text \<open>\<open>context.user_data.clear()\<close>: every key is removed.\<close>

definition clear_user_data :: "session \<Rightarrow> session" where
  "clear_user_data s =
     s\<lparr>activation_key := None, user_id := None, user_name := None, user_data := None,
       image_message_ids := None, last_updated := None\<rparr>"

text \<open>Both clear the dict first, then call \<open>clear_previous_images\<close>, then confirm.\<close>

definition end_session :: "env \<Rightarrow> int \<Rightarrow> session \<Rightarrow> unit result \<times> session" where
  "end_session env chat_id s =
     say env (EditText LoggedOut) (clear_previous_images env chat_id (clear_user_data s))"

definition logout_command :: "env \<Rightarrow> int \<Rightarrow> session \<Rightarrow> unit result \<times> session" where
  "logout_command env chat_id s =
     say env (ReplyText LoggedOut) (clear_previous_images env chat_id (clear_user_data s))"

subsection \<open>\<open>get_images\<close>\<close>

text \<open>
  The filter for today's images: a dict with a \<open>date\<close> equal to today contributes
  \<open>img['url']\<close> (a \<open>KeyError\<close> when it has no \<open>url\<close>), a string contributes itself,
  anything else nothing. \<open>acc\<close> is \<open>today_images\<close>.
\<close>

fun today_loop :: "string \<Rightarrow> pyval list \<Rightarrow> pyval list \<Rightarrow> pyval list result" where
  "today_loop tod [] acc = Returned acc"
| "today_loop tod (Dict d # rest) acc =
     (if fmlookup d ''date'' \<noteq> None \<and> fmlookup d ''date'' = Some (Str tod)
      then (case fmlookup d ''url'' of
              None \<Rightarrow> Raised (KeyError ''url'')
            | Some u \<Rightarrow> today_loop tod rest (acc @ [u]))
      else today_loop tod rest acc)"
| "today_loop tod (Str u # rest) acc = today_loop tod rest (acc @ [Str u])"
| "today_loop tod (_ # rest) acc = today_loop tod rest acc"

text \<open>The \<open>try\<close> block of the sending loop: download, then send the photo with the
  caption \<open>Image {i+1}/{n}\<close>. \<open>Inl e\<close> is the exception caught by \<open>except\<close>.\<close>

definition try_photo :: "env \<Rightarrow> int \<Rightarrow> nat \<Rightarrow> pyval \<Rightarrow> nat \<Rightarrow> session \<Rightarrow> (string + int) \<times> session" where
  "try_photo env chat_id n img_url i s =
     (case call env (Fetch img_url) s of
        (Err e, s1) \<Rightarrow> (Inl e, s1)
      | (Ok _, s1) \<Rightarrow>
          (case call env (SendPhoto chat_id (Suc i) n) s1 of
             (Err e, s2) \<Rightarrow> (Inl e, s2)
           | (Ok mid, s2) \<Rightarrow> (Inr mid, s2)))"

text \<open>One round of the loop: the id of the photo, or in the \<open>except\<close> branch the id of
  the text that reports the failure. That \<open>send_message\<close> is not inside a \<open>try\<close>.\<close>

definition send_one :: "env \<Rightarrow> int \<Rightarrow> nat \<Rightarrow> pyval \<Rightarrow> nat \<Rightarrow> session \<Rightarrow> int result \<times> session" where
  "send_one env chat_id n img_url i s =
     (case try_photo env chat_id n img_url i s of
        (Inr mid, s1) \<Rightarrow> (Returned mid, s1)
      | (Inl e, s1) \<Rightarrow>
          (case call env (SendMessage chat_id (Failed (Suc i) e)) s1 of
             (Ok mid, s2) \<Rightarrow> (Returned mid, s2)
           | (Err e2, s2) \<Rightarrow> (Raised (CallError e2), s2)))"

text \<open>\<open>for i, img_url in enumerate(today_images)\<close>, with \<open>ids\<close> for
  \<open>new_message_ids\<close>.\<close>

fun send_loop :: "env \<Rightarrow> int \<Rightarrow> nat \<Rightarrow> pyval list \<Rightarrow> nat \<Rightarrow> int list \<Rightarrow> session \<Rightarrow> int list result \<times> session" where
  "send_loop env chat_id n [] i ids s = (Returned ids, s)"
| "send_loop env chat_id n (img_url # rest) i ids s =
     (case send_one env chat_id n img_url i s of
        (Raised e, s1) \<Rightarrow> (Raised e, s1)
      | (Returned mid, s1) \<Rightarrow> send_loop env chat_id n rest (Suc i) (ids @ [mid]) s1)"

text \<open>The second half of \<open>get_images\<close>, from the status message on: the status
  text replaces the message of the button, the previous images are cleared, the loop runs,
  its ids are stored, the status message is deleted and the closing message sent.\<close>

definition send_today :: "env \<Rightarrow> int \<Rightarrow> pyval list \<Rightarrow> session \<Rightarrow> unit result \<times> session" where
  "send_today env chat_id today_images s1 =
     (case call env (EditText (Sending (length today_images))) s1 of
        (Err e, s2) \<Rightarrow> (Raised (CallError e), s2)
      | (Ok status_id, s2) \<Rightarrow>
          (case send_loop env chat_id (length today_images) today_images 0 []
                  (clear_previous_images env chat_id s2) of
             (Raised e, s3) \<Rightarrow> (Raised e, s3)
           | (Returned new_message_ids, s3) \<Rightarrow>
               (case say env (Delete chat_id status_id)
                       (s3\<lparr>image_message_ids := Some new_message_ids\<rparr>) of
                  (Raised e, s4) \<Rightarrow> (Raised e, s4)
                | (Returned _, s4) \<Rightarrow> say env (SendMessage chat_id AllDelivered) s4)))"

text \<open>The first half: the session check, the lookup, the check of the
  \<open>image_links\<close> field and the filter.\<close>

definition get_images :: "env \<Rightarrow> int \<Rightarrow> session \<Rightarrow> unit result \<times> session" where
  "get_images env chat_id s =
     (case activation_key s of
        None \<Rightarrow> say env (EditText SessionExpired) s
      | Some key \<Rightarrow>
          (case find_one env key s of
             (None, s1) \<Rightarrow> say env (EditText KeyRevoked) s1
           | (Some user_doc, s1) \<Rightarrow>
               if links_of user_doc = [] then say env (EditText NoImagesFound) s1
               else
                 (case today_loop (today env) (links_of user_doc) [] of
                    Raised e \<Rightarrow> (Raised e, s1)
                  | Returned today_images \<Rightarrow>
                      if today_images = [] then say env (EditText NoImagesToday) s1
                      else send_today env chat_id today_images s1)))"

subsection \<open>\<open>refresh_images\<close>\<close>

text \<open>\<open>context.user_data.get('user_data', {}).get('image_links', [])\<close>.\<close>

definition cached_links :: "session \<Rightarrow> pyval list" where
  "cached_links s = (case user_data s of None \<Rightarrow> [] | Some d \<Rightarrow> links_of d)"

definition refresh_images :: "env \<Rightarrow> int \<Rightarrow> session \<Rightarrow> unit result \<times> session" where
  "refresh_images env chat_id s =
     (case activation_key s of
        None \<Rightarrow> say env (EditText SessionExpired) s
      | Some key \<Rightarrow>
          (case find_one env key s of
             (None, s1) \<Rightarrow> say env (EditText KeyRevoked) s1
           | (Some user_doc, s1) \<Rightarrow>
               (let old_images = cached_links s1;
                    s2 = s1\<lparr>user_data := Some user_doc\<rparr>;
                    new_images = links_of user_doc
                in if length new_images \<noteq> length old_images \<or> new_images \<noteq> old_images
                   then
                     (case say env (EditText FoundNew) s2 of
                        (Raised e, s3) \<Rightarrow> (Raised e, s3)
                      | (Returned _, s3) \<Rightarrow>
                          get_images env chat_id (clear_previous_images env chat_id s3))
                   else say env (EditText UpToDate) s2)))"

section \<open>Reading the log\<close>

text \<open>The events a handler added to the log.\<close>

definition new_events :: "session \<Rightarrow> session \<Rightarrow> event list" where
  "new_events s s' = drop (length (trace s)) (trace s')"

text \<open>The log only grew: the old log is a prefix of the new one.\<close>

definition grows :: "session \<Rightarrow> session \<Rightarrow> bool" where
  "grows s s' \<longleftrightarrow> trace s' = trace s @ new_events s s'"

text \<open>The keys of \<open>context.user_data\<close> other than \<open>image_message_ids\<close> hold what
  they held.\<close>

definition keeps_keys :: "session \<Rightarrow> session \<Rightarrow> bool" where
  "keeps_keys s s' \<longleftrightarrow>
     activation_key s' = activation_key s \<and> user_id s' = user_id s \<and>
     user_name s' = user_name s \<and> user_data s' = user_data s \<and>
     last_updated s' = last_updated s"

text \<open>\<open>context.user_data['image_message_ids']\<close> as \<open>clear_previous_images\<close> reads
  it: the ids of the messages delivered before, none when the key is absent.\<close>

definition delivered :: "session \<Rightarrow> int list" where
  "delivered s = (case image_message_ids s of None \<Rightarrow> [] | Some ms \<Rightarrow> ms)"

text \<open>The keys looked up in the collection.\<close>

fun lookups :: "event list \<Rightarrow> string list" where
  "lookups [] = []"
| "lookups (Lookup k # evs) = k # lookups evs"
| "lookups (Call c r # evs) = lookups evs"

text \<open>The message ids for which a delete was attempted.\<close>

fun delete_attempts :: "event list \<Rightarrow> int list" where
  "delete_attempts [] = []"
| "delete_attempts (Call (Delete c m) r # evs) = m # delete_attempts evs"
| "delete_attempts (_ # evs) = delete_attempts evs"

text \<open>A call that removes a message from the chat, a call that puts a new one there,
  and a download.\<close>

fun is_delete :: "event \<Rightarrow> bool" where
  "is_delete (Call (Delete c m) r) = True"
| "is_delete _ = False"

fun is_send :: "event \<Rightarrow> bool" where
  "is_send (Call (SendPhoto c i n) r) = True"
| "is_send (Call (SendMessage c t) r) = True"
| "is_send (Call (ReplyText t) r) = True"
| "is_send _ = False"

fun is_fetch :: "event \<Rightarrow> bool" where
  "is_fetch (Call (Fetch u) r) = True"
| "is_fetch _ = False"

text \<open>The URLs downloaded, in the order of the log.\<close>

fun fetched :: "event list \<Rightarrow> pyval list" where
  "fetched [] = []"
| "fetched (Call (Fetch u) r # evs) = u # fetched evs"
| "fetched (_ # evs) = fetched evs"

text \<open>The events of a delivery batch: downloads, photos and failure texts.\<close>

fun in_batch :: "event \<Rightarrow> bool" where
  "in_batch (Call (Fetch u) r) = True"
| "in_batch (Call (SendPhoto c i n) r) = True"
| "in_batch (Call (SendMessage c (Failed i e)) r) = True"
| "in_batch _ = False"

text \<open>What the sending loop delivered, in the order of the log: for each photo that
  was sent and each failure text that was sent, the number of the item and the id of the
  message.\<close>

fun deliveries :: "event list \<Rightarrow> (nat \<times> int) list" where
  "deliveries [] = []"
| "deliveries (Call (SendPhoto c i n) (Ok m) # evs) = (i, m) # deliveries evs"
| "deliveries (Call (SendMessage c (Failed i e)) (Ok m) # evs) = (i, m) # deliveries evs"
| "deliveries (_ # evs) = deliveries evs"

text \<open>The two counts of a delivery report: photos sent, and failure texts issued in
  place of a photo.\<close>

fun photos_sent :: "event list \<Rightarrow> nat" where
  "photos_sent [] = 0"
| "photos_sent (Call (SendPhoto c i n) (Ok m) # evs) = Suc (photos_sent evs)"
| "photos_sent (_ # evs) = photos_sent evs"

fun errors_reported :: "event list \<Rightarrow> nat" where
  "errors_reported [] = 0"
| "errors_reported (Call (SendMessage c (Failed i e)) r # evs) = Suc (errors_reported evs)"
| "errors_reported (_ # evs) = errors_reported evs"

section \<open>A delivery batch as the specification words it\<close>

text \<open>
  Step 4 of the delivery algorithm, read off the log. For each URL of the resolved set, in
  order, with its 1-based number: the content is fetched; on success it is sent as an
  image captioned with its number and the size of the set, and the id of that message
  is appended; on a failure of the fetch or of the send, a text carrying the number and
  the reason is sent and the id of that message is appended instead.

  \<open>failure_round\<close> reads the substitute text off the front of the log,
  \<open>item_round\<close> the events of one item; both give the id appended and the rest of the
  log. \<open>batch_ids\<close> reads a whole batch: the ids appended when the log is exactly the
  rounds of the items in order, nothing otherwise.
\<close>

fun failure_round :: "int \<Rightarrow> nat \<Rightarrow> string \<Rightarrow> event list \<Rightarrow> (int \<times> event list) option" where
  "failure_round c j e (Call q (Ok m) # evs) =
     (if q = SendMessage c (Failed j e) then Some (m, evs) else None)"
| "failure_round c j e _ = None"

fun item_round :: "int \<Rightarrow> nat \<Rightarrow> nat \<Rightarrow> pyval \<Rightarrow> event list \<Rightarrow> (int \<times> event list) option" where
  "item_round c n j u (Call q (Err e) # evs) =
     (if q = Fetch u then failure_round c j e evs else None)"
| "item_round c n j u (Call q (Ok b) # Call p (Ok m) # evs) =
     (if q = Fetch u \<and> p = SendPhoto c j n then Some (m, evs) else None)"
| "item_round c n j u (Call q (Ok b) # Call p (Err e) # evs) =
     (if q = Fetch u \<and> p = SendPhoto c j n then failure_round c j e evs else None)"
| "item_round c n j u _ = None"

fun batch_ids :: "int \<Rightarrow> nat \<Rightarrow> nat \<Rightarrow> pyval list \<Rightarrow> event list \<Rightarrow> int list option" where
  "batch_ids c n j [] [] = Some []"
| "batch_ids c n j [] (ev # evs) = None"
| "batch_ids c n j (u # us) evs =
     (case item_round c n j u evs of
        None \<Rightarrow> None
      | Some (m, rest) \<Rightarrow> map_option (Cons m) (batch_ids c n (Suc j) us rest))"

section \<open>The image set resolver as the specification words it\<close>

text \<open>An entry is deliverable on a day when it is a bare URL, or a dict whose
  \<open>date\<close> is that day.\<close>

fun deliverable :: "string \<Rightarrow> pyval \<Rightarrow> bool" where
  "deliverable tod (Str u) = True"
| "deliverable tod (Dict d) = (fmlookup d ''date'' = Some (Str tod))"
| "deliverable tod _ = False"

text \<open>The URL of an entry: the string itself, or what a dict holds under \<open>url\<close>.\<close>

fun url_of :: "pyval \<Rightarrow> pyval option" where
  "url_of (Str u) = Some (Str u)"
| "url_of (Dict d) = fmlookup d ''url''"
| "url_of _ = None"

text \<open>The URLs of the deliverable entries, in the order of the record.\<close>

definition resolveToday_spec :: "string \<Rightarrow> pyval list \<Rightarrow> pyval list" where
  "resolveToday_spec tod links = List.map_filter url_of (filter (deliverable tod) links)"

text \<open>An entry that is neither a string nor a dict with a \<open>date\<close> key.\<close>

fun undated :: "pyval \<Rightarrow> bool" where
  "undated (Str u) = False"
| "undated (Dict d) = (fmlookup d ''date'' = None)"
| "undated _ = True"

section \<open>Scenarios\<close>

text \<open>The record of the specification's scenario: a bare URL and an entry dated
  2024-01-01.\<close>

definition rec_K1 :: doc where
  "rec_K1 = \<lparr>doc_id = ''1'', access_key = ''K1'', name = Some ''Ann'',
     image_links = Some [Str ''http://a/1.png'',
       Dict (fmap_of_list [(''url'', Str ''http://a/2.png''), (''date'', Str ''2024-01-01'')])]\<rparr>"

text \<open>The same record under another name, and with a third image.\<close>

definition rec_renamed :: doc where
  "rec_renamed = rec_K1\<lparr>name := Some ''Bob''\<rparr>"

definition rec_three :: doc where
  "rec_three = rec_K1\<lparr>image_links := Some [Str ''http://a/1.png'',
       Dict (fmap_of_list [(''url'', Str ''http://a/2.png''), (''date'', Str ''2024-01-01'')]),
       Str ''http://a/3.png'']\<rparr>"

text \<open>A world where every call succeeds and the \<open>n\<close>-th event yields message id
  \<open>100 + n\<close>; one where the download of the second image fails; and variants of the
  collection.\<close>

definition env_ok :: env where
  "env_ok = \<lparr>collection = (\<lambda>n. [rec_three]), now = 9, today = ''2024-01-01'',
     net = (\<lambda>n c. Ok (100 + int n))\<rparr>"


definition env_renamed :: env where
  "env_renamed = env_ok\<lparr>collection := (\<lambda>n. [rec_renamed])\<rparr>"

definition env_same :: env where
  "env_same = env_ok\<lparr>collection := (\<lambda>n. [rec_K1])\<rparr>"

text \<open>A collection that changes after the first lookup: the record then has one other
  image.\<close>

definition rec_nine :: doc where
  "rec_nine = rec_K1\<lparr>image_links := Some [Str ''http://a/9.png'']\<rparr>"

definition env_moving :: env where
  "env_moving = env_ok\<lparr>collection := (\<lambda>n. if n = 0 then [rec_three] else [rec_nine])\<rparr>"

text \<open>A transport that rejects the notice of a change.\<close>

definition env_notice_rejected :: env where
  "env_notice_rejected = env_ok\<lparr>net := (\<lambda>n c. if c = EditText FoundNew then Err ''rejected''
     else Ok (100 + int n))\<rparr>"




definition env_revoked :: env where
  "env_revoked = env_ok\<lparr>collection := (\<lambda>n. [])\<rparr>"

text \<open>A session before \<open>/start\<close>, and one validated earlier (at time 5, with
  \<open>rec_K1\<close>) that has two delivered messages in the chat.\<close>

definition no_session :: session where
  "no_session = \<lparr>activation_key = None, user_id = None, user_name = None, user_data = None,
     image_message_ids = None, last_updated = None, trace = []\<rparr>"

definition logged_in :: session where
  "logged_in = \<lparr>activation_key = Some ''K1'', user_id = Some ''1'', user_name = Some ''Ann'',
     user_data = Some rec_K1, image_message_ids = Some [41, 42], last_updated = Some 5,
     trace = []\<rparr>"

section \<open>How the handlers run\<close>

text \<open>The definitions unfolded to run a handler on a scenario.\<close>

lemmas world_defs = rec_K1_def rec_three_def env_ok_def logged_in_def find_by_key_def

lemmas handler_defs = find_one_def call_def say_def links_of_def clear_previous_images_def
  get_images_def send_today_def try_photo_def send_one_def refresh_images_def cached_links_def
  new_events_def delivered_def Let_def

lemma call_eq:
  "call env c s =
     (net env (length (trace s)) c, s\<lparr>trace := trace s @ [Call c (net env (length (trace s)) c)]\<rparr>)"
  by (simp add: call_def Let_def)

lemma say_eq:
  "say env c s =
     ((case net env (length (trace s)) c of Ok m \<Rightarrow> Returned () | Err e \<Rightarrow> Raised (CallError e)),
      s\<lparr>trace := trace s @ [Call c (net env (length (trace s)) c)]\<rparr>)"
  by (simp add: say_def call_eq split: reply.splits)

lemma find_one_eq:
  "find_one env k s = (find_by_key env (length (trace s)) k, s\<lparr>trace := trace s @ [Lookup k]\<rparr>)"
  by (simp add: find_one_def)

lemma lookups_append: "lookups (xs @ ys) = lookups xs @ lookups ys"
  by (induction xs rule: lookups.induct) simp_all

lemma delete_attempts_append: "delete_attempts (xs @ ys) = delete_attempts xs @ delete_attempts ys"
  by (induction xs rule: delete_attempts.induct) simp_all

lemma deliveries_append: "deliveries (xs @ ys) = deliveries xs @ deliveries ys"
  by (induction xs rule: deliveries.induct) simp_all

lemma photos_sent_append: "photos_sent (xs @ ys) = photos_sent xs + photos_sent ys"
  by (induction xs rule: photos_sent.induct) simp_all

lemma errors_reported_append: "errors_reported (xs @ ys) = errors_reported xs + errors_reported ys"
  by (induction xs rule: errors_reported.induct) simp_all

lemmas obs_append = lookups_append delete_attempts_append deliveries_append photos_sent_append
  errors_reported_append

lemma new_events_app [simp]: "new_events s (s\<lparr>trace := trace s @ evs\<rparr>) = evs"
  by (simp add: new_events_def)

lemma new_events_self [simp]: "new_events s s = []"
  by (simp add: new_events_def)

lemma new_events_eq: "trace s' = trace s @ evs \<Longrightarrow> new_events s s' = evs"
  by (simp add: new_events_def)

lemma grows_refl [simp]: "grows s s"
  by (simp add: grows_def)

lemma growsI: "trace s' = trace s @ evs \<Longrightarrow> grows s s'"
  by (simp add: grows_def new_events_def)

lemma grows_trans:
  assumes "grows s s1" and "grows s1 s2"
  shows "grows s s2" and "new_events s s2 = new_events s s1 @ new_events s1 s2"
proof -
  have t: "trace s2 = trace s @ (new_events s s1 @ new_events s1 s2)"
    using assms by (simp add: grows_def)
  then show "grows s s2" by (rule growsI)
  from t show "new_events s s2 = new_events s s1 @ new_events s1 s2"
    by (rule new_events_eq)
qed

lemma keeps_keys_refl [simp]: "keeps_keys s s"
  by (simp add: keeps_keys_def)

lemma keeps_keys_trans: "keeps_keys s s1 \<Longrightarrow> keeps_keys s1 s2 \<Longrightarrow> keeps_keys s s2"
  by (simp add: keeps_keys_def)

lemma call_run:
  assumes "call env c s = (r, s')"
  shows "r = net env (length (trace s)) c" and "keeps_keys s s'"
    and "image_message_ids s' = image_message_ids s"
    and "grows s s'" and "new_events s s' = [Call c r]"
  using assms by (auto simp: call_eq keeps_keys_def intro: growsI)

lemma say_run:
  assumes "say env c s = (r, s')"
  shows "keeps_keys s s'" and "image_message_ids s' = image_message_ids s"
    and "grows s s'"
    and "new_events s s' = [Call c (net env (length (trace s)) c)]"
    and "r = Returned () \<longleftrightarrow> (\<exists>m. net env (length (trace s)) c = Ok m)"
  using assms by (auto simp: say_eq keeps_keys_def intro: growsI split: reply.splits)

lemma find_one_run:
  assumes "find_one env k s = (d, s')"
  shows "d = find_by_key env (length (trace s)) k" and "keeps_keys s s'"
    and "image_message_ids s' = image_message_ids s"
    and "grows s s'" and "new_events s s' = [Lookup k]"
  using assms by (auto simp: find_one_eq keeps_keys_def intro: growsI)

lemma delete_loop_run:
  assumes "delete_loop env c ms s = s'"
  shows "keeps_keys s s' \<and> image_message_ids s' = image_message_ids s \<and> grows s s' \<and>
         delete_attempts (new_events s s') = ms \<and>
         lookups (new_events s s') = [] \<and>
         deliveries (new_events s s') = [] \<and>
         photos_sent (new_events s s') = 0 \<and>
         errors_reported (new_events s s') = 0 \<and>
         (\<forall>ev \<in> set (new_events s s'). is_delete ev)"
  using assms
proof (induction ms arbitrary: s)
  case Nil
  then show ?case by auto
next
  case (Cons m ms)
  obtain r s1 where c: "call env (Delete c m) s = (r, s1)"
    by (cases "call env (Delete c m) s")
  note c1 = call_run [OF c]
  from Cons.prems c have "delete_loop env c ms s1 = s'"
    by simp
  note ih = Cons.IH [OF this]
  have g: "grows s1 s'"
    using ih by simp
  have ne: "new_events s s' = Call (Delete c m) r # new_events s1 s'"
    using grows_trans(2) [OF c1(4) g] c1(5) by simp
  show ?case
    using ih c1(3) keeps_keys_trans [OF c1(2)] grows_trans(1) [OF c1(4) g] by (simp add: ne)
qed

lemma clear_previous_images_run:
  assumes "clear_previous_images env c s = s'"
  shows "keeps_keys s s' \<and> grows s s' \<and>
         image_message_ids s' = (case image_message_ids s of None \<Rightarrow> None | Some ms \<Rightarrow> Some []) \<and>
         delete_attempts (new_events s s') = (case image_message_ids s of None \<Rightarrow> [] | Some ms \<Rightarrow> ms) \<and>
         lookups (new_events s s') = [] \<and>
         deliveries (new_events s s') = [] \<and>
         photos_sent (new_events s s') = 0 \<and>
         errors_reported (new_events s s') = 0 \<and>
         (\<forall>ev \<in> set (new_events s s'). is_delete ev)"
proof (cases "image_message_ids s")
  case None
  with assms show ?thesis by (auto simp: clear_previous_images_def)
next
  case (Some ms)
  show ?thesis
  proof (cases ms)
    case Nil
    with Some assms show ?thesis by (auto simp: clear_previous_images_def)
  next
    case (Cons m rest)
    define s1 where "s1 = delete_loop env c ms s"
    note d = delete_loop_run [OF s1_def [symmetric]]
    have s': "s' = s1\<lparr>image_message_ids := Some []\<rparr>"
      using assms Some Cons by (simp add: clear_previous_images_def s1_def)
    have ne: "new_events s s' = new_events s s1"
      by (simp add: s' new_events_def)
    have "grows s s'"
      using d by (simp add: grows_def ne) (simp add: s')
    moreover have "keeps_keys s s'"
      using d by (simp add: keeps_keys_def s')
    ultimately show ?thesis
      using d Some by (simp add: ne) (simp add: s')
  qed
qed

lemma send_one_run:
  assumes "send_one env c n u i s = (r, s')"
  shows "keeps_keys s s' \<and> image_message_ids s' = image_message_ids s \<and> grows s s' \<and>
         lookups (new_events s s') = [] \<and>
         delete_attempts (new_events s s') = [] \<and>
         (\<forall>ev \<in> set (new_events s s'). is_fetch ev \<or> is_send ev) \<and>
         (\<forall>m. r = Returned m \<longrightarrow>
            deliveries (new_events s s') = [(Suc i, m)] \<and>
            photos_sent (new_events s s') + errors_reported (new_events s s') = 1)"
  using assms
  by (auto simp: send_one_def try_photo_def call_eq keeps_keys_def intro: growsI split: reply.splits)

lemma send_loop_run:
  assumes "send_loop env c n imgs i ids s = (r, s')"
  shows "keeps_keys s s' \<and> image_message_ids s' = image_message_ids s \<and> grows s s' \<and>
         lookups (new_events s s') = [] \<and>
         delete_attempts (new_events s s') = [] \<and>
         (\<forall>ev \<in> set (new_events s s'). is_fetch ev \<or> is_send ev) \<and>
         (\<forall>ids'. r = Returned ids' \<longrightarrow>
            ids' = ids @ map snd (deliveries (new_events s s')) \<and>
            map fst (deliveries (new_events s s')) = [Suc i ..< Suc i + length imgs] \<and>
            photos_sent (new_events s s') + errors_reported (new_events s s') = length imgs)"
  using assms
proof (induction imgs arbitrary: i ids s)
  case Nil
  then show ?case by auto
next
  case (Cons u rest)
  obtain r1 s1 where one: "send_one env c n u i s = (r1, s1)"
    by (cases "send_one env c n u i s")
  note o = send_one_run [OF one]
  show ?case
  proof (cases r1)
    case (Raised e)
    with Cons.prems one have "r = Raised e" "s' = s1"
      by simp_all
    with o show ?thesis by simp
  next
    case (Returned m)
    with Cons.prems one have "send_loop env c n rest (Suc i) (ids @ [m]) s1 = (r, s')"
      by simp
    note ih = Cons.IH [OF this]
    have g1: "grows s s1" and g2: "grows s1 s'"
      using o ih by simp_all
    have k1: "keeps_keys s s1" and k2: "keeps_keys s1 s'"
      using o ih by simp_all
    note ne = grows_trans(2) [OF g1 g2]
    have "map fst (deliveries (new_events s s')) = [Suc i ..< Suc i + length (u # rest)]"
      if "r = Returned ids'" for ids'
      using that o ih Returned by (simp add: ne obs_append upt_rec)
    then show ?thesis
      using o ih Returned keeps_keys_trans [OF k1 k2] grows_trans(1) [OF g1 g2]
      by (auto simp: ne obs_append)
  qed
qed

lemma send_today_run:
  assumes "send_today env c imgs s = (r, s')"
  shows "keeps_keys s s' \<and> grows s s' \<and> lookups (new_events s s') = [] \<and>
         (r = Returned () \<longrightarrow>
            image_message_ids s' = Some (map snd (deliveries (new_events s s'))) \<and>
            map fst (deliveries (new_events s s')) = [1 ..< Suc (length imgs)] \<and>
            photos_sent (new_events s s') + errors_reported (new_events s s') = length imgs \<and>
            butlast (delete_attempts (new_events s s')) = delivered s)"
proof -
  obtain r1 s1 where c: "call env (EditText (Sending (length imgs))) s = (r1, s1)"
    by (cases "call env (EditText (Sending (length imgs))) s")
  note c1 = call_run [OF c]
  show ?thesis
  proof (cases r1)
    case (Err e)
    with assms c have "r = Raised (CallError e)" "s' = s1"
      by (simp_all add: send_today_def)
    with c1 show ?thesis by simp
  next
    case (Ok st)
    define s2 where "s2 = clear_previous_images env c s1"
    note cl = clear_previous_images_run [OF s2_def [symmetric]]
    obtain r3 s3 where l: "send_loop env c (length imgs) imgs 0 [] s2 = (r3, s3)"
      by (cases "send_loop env c (length imgs) imgs 0 [] s2")
    note lp = send_loop_run [OF l]
    have k3: "keeps_keys s s3"
      using c1(2) cl lp by (blast intro: keeps_keys_trans)
    have t3: "trace s3 = trace s @ (new_events s s1 @ new_events s1 s2 @ new_events s2 s3)"
      using c1(4) cl lp by (simp add: grows_def)
    show ?thesis
    proof (cases r3)
      case (Raised e)
      with assms c Ok l have "r = Raised e" "s' = s3"
        by (simp_all add: send_today_def s2_def)
      with k3 t3 c1(5) cl lp show ?thesis
        by (simp add: growsI new_events_eq [OF t3] obs_append)
    next
      case (Returned ids)
      define s4 where "s4 = s3\<lparr>image_message_ids := Some ids\<rparr>"
      obtain r5 s5 where d: "say env (Delete c st) s4 = (r5, s5)"
        by (cases "say env (Delete c st) s4")
      note d1 = say_run [OF d]
      have k5: "keeps_keys s s5"
        using k3 d1(1) by (simp add: keeps_keys_def s4_def)
      have t5: "trace s5 = trace s @ (new_events s s1 @ new_events s1 s2 @ new_events s2 s3 @ new_events s4 s5)"
        using t3 d1(3) by (simp add: grows_def s4_def)
      show ?thesis
      proof (cases r5)
        case (Raised e)
        with assms c Ok l Returned d have "r = Raised e" "s' = s5"
          by (simp_all add: send_today_def s2_def s4_def)
        with k5 t5 c1(5) cl lp d1(4) show ?thesis
          by (simp add: growsI new_events_eq [OF t5] obs_append)
      next
        case (Returned u)
        with assms c Ok l \<open>r3 = Returned ids\<close> d
        have f: "say env (SendMessage c AllDelivered) s5 = (r, s')"
          by (simp add: send_today_def s2_def s4_def)
        note f1 = say_run [OF f]
        have k: "keeps_keys s s'"
          using k5 f1(1) by (rule keeps_keys_trans)
        have t: "trace s' = trace s @ (new_events s s1 @ new_events s1 s2 @ new_events s2 s3 @ new_events s4 s5 @ new_events s5 s')"
          using t5 f1(3) by (simp add: grows_def)
        have ids: "image_message_ids s' = Some ids"
          using f1(2) d1(2) by (simp add: s4_def)
        have dl: "delivered s = (case image_message_ids s1 of None \<Rightarrow> [] | Some ms \<Rightarrow> ms)"
          using c1(3) by (simp add: delivered_def)
        show ?thesis
          using k t c1(5) cl lp d1(4) f1(4) ids \<open>r3 = Returned ids\<close> dl
          by (simp add: growsI new_events_eq [OF t] obs_append)
      qed
    qed
  qed
qed

lemma get_images_run:
  assumes "get_images env c s = (r, s')"
  shows "keeps_keys s s' \<and> grows s s' \<and>
         lookups (new_events s s') = (case activation_key s of None \<Rightarrow> [] | Some k \<Rightarrow> [k])"
proof (cases "activation_key s")
  case None
  with assms have "say env (EditText SessionExpired) s = (r, s')"
    by (simp add: get_images_def)
  from say_run [OF this] None show ?thesis by simp
next
  case (Some k)
  define s1 where "s1 = s\<lparr>trace := trace s @ [Lookup k]\<rparr>"
  have k1: "keeps_keys s s1" and t1: "trace s1 = trace s @ [Lookup k]"
    by (simp_all add: s1_def keeps_keys_def)
  have goal: "keeps_keys s s' \<and> grows s s' \<and> lookups (new_events s s') = [k]"
    if "keeps_keys s1 s'" and "grows s1 s'" and "lookups (new_events s1 s') = []"
  proof -
    have t: "trace s' = trace s @ (Lookup k # new_events s1 s')"
      using that(2) t1 by (simp add: grows_def)
    show ?thesis
      using keeps_keys_trans [OF k1 that(1)] that(3) by (simp add: growsI [OF t] new_events_eq [OF t])
  qed
  have via_say: "keeps_keys s s' \<and> grows s s' \<and> lookups (new_events s s') = [k]"
    if "say env q s1 = (r, s')" for q
    using say_run [OF that] by (intro goal) simp_all
  show ?thesis
  proof (cases "find_by_key env (length (trace s)) k")
    case None
    with assms Some have "say env (EditText KeyRevoked) s1 = (r, s')"
      by (simp add: get_images_def find_one_eq s1_def)
    from via_say [OF this] Some show ?thesis by simp
  next
    case found: (Some d)
    show ?thesis
    proof (cases "links_of d = []")
      case True
      with assms Some found have "say env (EditText NoImagesFound) s1 = (r, s')"
        by (simp add: get_images_def find_one_eq s1_def)
      from via_say [OF this] Some show ?thesis by simp
    next
      case False
      show ?thesis
      proof (cases "today_loop (today env) (links_of d) []")
        case (Raised e)
        with assms Some found False have "s' = s1"
          by (simp add: get_images_def find_one_eq s1_def)
        with Some goal [of ] show ?thesis by simp
      next
        case (Returned imgs)
        show ?thesis
        proof (cases "imgs = []")
          case True
          with assms Some found False Returned have "say env (EditText NoImagesToday) s1 = (r, s')"
            by (simp add: get_images_def find_one_eq s1_def)
          from via_say [OF this] Some show ?thesis by simp
        next
          case ne: False
          with assms Some found False Returned have "send_today env c imgs s1 = (r, s')"
            by (simp add: get_images_def find_one_eq s1_def)
          from send_today_run [OF this] Some show ?thesis by (simp add: goal)
        qed
      qed
    qed
  qed
qed

lemma get_images_sends:
  assumes key: "activation_key s = Some k"
    and found: "find_by_key env (length (trace s)) k = Some d"
    and resolved: "today_loop (today env) (links_of d) [] = Returned imgs"
    and nonempty: "imgs \<noteq> []"
    and run: "get_images env c s = (r, s')"
    and ok: "r = Returned ()"
  shows "image_message_ids s' = Some (map snd (deliveries (new_events s s'))) \<and>
         map fst (deliveries (new_events s s')) = [1 ..< Suc (length imgs)] \<and>
         photos_sent (new_events s s') + errors_reported (new_events s s') = length imgs \<and>
         butlast (delete_attempts (new_events s s')) = delivered s"
proof -
  define s1 where "s1 = s\<lparr>trace := trace s @ [Lookup k]\<rparr>"
  have links: "links_of d \<noteq> []"
    using resolved nonempty by auto
  have st: "send_today env c imgs s1 = (r, s')"
    using run key found links resolved nonempty
    by (simp add: get_images_def find_one_eq s1_def)
  note r1 = send_today_run [OF st]
  have t: "trace s' = trace s @ (Lookup k # new_events s1 s')"
    using r1 by (simp add: grows_def s1_def)
  have "delivered s1 = delivered s"
    by (simp add: delivered_def s1_def)
  then show ?thesis
    using r1 ok by (simp add: new_events_eq [OF t])
qed

lemma get_images_revoked:
  assumes "activation_key s = Some k"
    and "find_by_key env (length (trace s)) k = None"
  shows "get_images env c s = say env (EditText KeyRevoked) (s\<lparr>trace := trace s @ [Lookup k]\<rparr>)"
  using assms by (simp add: get_images_def find_one_eq)

lemma refresh_revoked:
  assumes "activation_key s = Some k"
    and "find_by_key env (length (trace s)) k = None"
  shows "refresh_images env c s = say env (EditText KeyRevoked) (s\<lparr>trace := trace s @ [Lookup k]\<rparr>)"
  using assms by (simp add: refresh_images_def find_one_eq)

lemma refresh_same_links:
  assumes "activation_key s = Some k"
    and "find_by_key env (length (trace s)) k = Some fresh"
    and "links_of fresh = cached_links s"
  shows "refresh_images env c s =
           say env (EditText UpToDate) (s\<lparr>trace := trace s @ [Lookup k], user_data := Some fresh\<rparr>)"
  using assms by (simp add: refresh_images_def find_one_eq cached_links_def)

lemma refresh_changed_links:
  assumes "activation_key s = Some k"
    and "find_by_key env (length (trace s)) k = Some fresh"
    and "links_of fresh \<noteq> cached_links s"
  shows "refresh_images env c s =
           (case say env (EditText FoundNew) (s\<lparr>trace := trace s @ [Lookup k], user_data := Some fresh\<rparr>) of
              (Returned u, s3) \<Rightarrow> get_images env c (clear_previous_images env c s3)
            | (Raised e, s3) \<Rightarrow> (Raised e, s3))"
  using assms by (simp add: refresh_images_def find_one_eq cached_links_def)

lemma clear_after_clear:
  "clear_previous_images env c (clear_user_data s) = clear_user_data s"
  by (simp add: clear_previous_images_def clear_user_data_def)

lemma logout_is_confirmation_only:
  "logout_command env c s = say env (ReplyText LoggedOut) (clear_user_data s)"
  "end_session env c s = say env (EditText LoggedOut) (clear_user_data s)"
  by (simp_all add: logout_command_def end_session_def clear_after_clear)



lemma refresh_images_run:
  assumes "refresh_images env c s = (r, s')"
  shows "activation_key s' = activation_key s \<and> user_id s' = user_id s \<and>
         user_name s' = user_name s \<and> last_updated s' = last_updated s \<and> grows s s' \<and>
         length (lookups (new_events s s')) \<le> 2"
proof (cases "activation_key s")
  case None
  with assms have "say env (EditText SessionExpired) s = (r, s')"
    by (simp add: refresh_images_def)
  from say_run [OF this] show ?thesis by (simp add: keeps_keys_def)
next
  case (Some k)
  define s1 where "s1 = s\<lparr>trace := trace s @ [Lookup k]\<rparr>"
  show ?thesis
  proof (cases "find_by_key env (length (trace s)) k")
    case None
    with assms Some have "say env (EditText KeyRevoked) s1 = (r, s')"
      by (simp add: refresh_revoked s1_def)
    note y = say_run [OF this]
    have t: "trace s' = trace s @ [Lookup k, Call (EditText KeyRevoked) (net env (length (trace s1)) (EditText KeyRevoked))]"
      using y(4) y(3) by (simp add: grows_def s1_def)
    show ?thesis
      using y(1) by (simp add: keeps_keys_def s1_def growsI [OF t] new_events_eq [OF t])
  next
    case found: (Some fresh)
    define s2 where "s2 = s\<lparr>trace := trace s @ [Lookup k], user_data := Some fresh\<rparr>"
    show ?thesis
    proof (cases "links_of fresh = cached_links s")
      case True
      with assms Some found have "say env (EditText UpToDate) s2 = (r, s')"
        by (simp add: refresh_same_links s2_def)
      note y = say_run [OF this]
      have t: "trace s' = trace s @ [Lookup k, Call (EditText UpToDate) (net env (length (trace s2)) (EditText UpToDate))]"
        using y(4) y(3) by (simp add: grows_def s2_def)
      show ?thesis
        using y(1) by (simp add: keeps_keys_def s2_def growsI [OF t] new_events_eq [OF t])
    next
      case False
      obtain r3 s3 where n: "say env (EditText FoundNew) s2 = (r3, s3)"
        by (cases "say env (EditText FoundNew) s2")
      note y = say_run [OF n]
      have t3: "trace s3 = trace s @ [Lookup k, Call (EditText FoundNew) (net env (length (trace s2)) (EditText FoundNew))]"
        using y(4) y(3) by (simp add: grows_def s2_def)
      have k3: "activation_key s3 = activation_key s \<and> user_id s3 = user_id s \<and>
         user_name s3 = user_name s \<and> last_updated s3 = last_updated s"
        using y(1) by (simp add: keeps_keys_def s2_def)
      show ?thesis
      proof (cases r3)
        case (Raised e)
        with assms Some found False n have "s' = s3"
          by (simp add: refresh_changed_links s2_def)
        with k3 show ?thesis
          by (simp add: growsI [OF t3] new_events_eq [OF t3])
      next
        case (Returned u)
        define s4 where "s4 = clear_previous_images env c s3"
        note cl = clear_previous_images_run [OF s4_def [symmetric]]
        from assms Some found False n Returned have "get_images env c s4 = (r, s')"
          by (simp add: refresh_changed_links s2_def s4_def)
        note g = get_images_run [OF this]
        have t: "trace s' = trace s @ ([Lookup k, Call (EditText FoundNew) (net env (length (trace s2)) (EditText FoundNew))]
                   @ new_events s3 s4 @ new_events s4 s')"
          using t3 cl g by (simp add: grows_def)
        have "length (lookups (new_events s4 s')) \<le> 1"
          using g by (simp split: option.splits)
        then show ?thesis
          using k3 cl g by (simp add: keeps_keys_def growsI [OF t] new_events_eq [OF t] obs_append)
      qed
    qed
  qed
qed

lemma fetched_append: "fetched (xs @ ys) = fetched xs @ fetched ys"
  by (induction xs rule: fetched.induct) simp_all

lemma delete_not_in_batch: "is_delete ev \<Longrightarrow> \<not> in_batch ev"
  by (cases ev rule: is_delete.cases) simp_all

lemma filter_in_batch_deletes: "\<forall>ev \<in> set evs. is_delete ev \<Longrightarrow> filter in_batch evs = []"
  by (induction evs) (auto dest: delete_not_in_batch)

lemma filter_in_batch_all: "\<forall>ev \<in> set evs. in_batch ev \<Longrightarrow> filter in_batch evs = evs"
  by (induction evs) auto

lemma delete_loop_length:
  "length (trace (delete_loop env c ms s)) = length (trace s) + length ms"
  by (induction ms arbitrary: s) (simp_all add: call_eq)

lemma clear_previous_images_length:
  "length (trace (clear_previous_images env c s)) = length (trace s) + length (delivered s)"
proof (cases "image_message_ids s")
  case None
  then show ?thesis by (simp add: clear_previous_images_def delivered_def)
next
  case (Some ms)
  then show ?thesis
    using delete_loop_length [of env c ms s]
    by (cases ms) (simp_all add: clear_previous_images_def delivered_def)
qed

lemma send_one_round:
  assumes "send_one env c n u i s = (Returned m, s')"
  shows "item_round c n (Suc i) u (new_events s s' @ rest) = Some (m, rest) \<and>
         fetched (new_events s s') = [u] \<and> (\<forall>ev \<in> set (new_events s s'). in_batch ev)"
  using assms
  by (auto simp: send_one_def try_photo_def call_eq split: reply.splits)

lemma send_loop_batch:
  assumes "send_loop env c n imgs i ids s = (Returned ids', s')"
  shows "batch_ids c n (Suc i) imgs (new_events s s') = Some (map snd (deliveries (new_events s s'))) \<and>
         fetched (new_events s s') = imgs \<and> (\<forall>ev \<in> set (new_events s s'). in_batch ev)"
  using assms
proof (induction imgs arbitrary: i ids s)
  case Nil
  then show ?case by auto
next
  case (Cons u rest)
  obtain r1 s1 where one: "send_one env c n u i s = (r1, s1)"
    by (cases "send_one env c n u i s")
  with Cons.prems obtain m where m: "r1 = Returned m"
    by (cases r1) auto
  note o = send_one_run [OF one]
  note b = send_one_round [OF one [unfolded m]]
  from Cons.prems one m have l: "send_loop env c n rest (Suc i) (ids @ [m]) s1 = (Returned ids', s')"
    by simp
  note lr = send_loop_run [OF l]
  note ih = Cons.IH [OF l]
  have g1: "grows s s1" and g2: "grows s1 s'"
    using o lr by simp_all
  note ne = grows_trans(2) [OF g1 g2]
  have d: "deliveries (new_events s s1) = [(Suc i, m)]"
    using o m by simp
  show ?case
    using b [of "new_events s1 s'"] ih d by (auto simp: ne obs_append fetched_append)
qed

lemma fetched_deletes: "\<forall>ev \<in> set evs. is_delete ev \<Longrightarrow> fetched evs = []"
proof (induction evs)
  case Nil
  show ?case by simp
next
  case (Cons ev evs)
  then have "is_delete ev" and "fetched evs = []"
    by simp_all
  then show ?case
    by (cases ev rule: is_delete.cases) simp_all
qed

lemma send_today_batch:
  assumes "send_today env c imgs s = (Returned (), s')"
  shows "batch_ids c (length imgs) 1 imgs (filter in_batch (new_events s s')) =
           Some (map snd (deliveries (new_events s s'))) \<and>
         fetched (new_events s s') = imgs"
proof -
  obtain r1 s1 where c: "call env (EditText (Sending (length imgs))) s = (r1, s1)"
    by (cases "call env (EditText (Sending (length imgs))) s")
  note c1 = call_run [OF c]
  from assms c obtain st where st: "r1 = Ok st"
    by (cases r1) (auto simp: send_today_def)
  define s2 where "s2 = clear_previous_images env c s1"
  note cl = clear_previous_images_run [OF s2_def [symmetric]]
  obtain r3 s3 where l: "send_loop env c (length imgs) imgs 0 [] s2 = (r3, s3)"
    by (cases "send_loop env c (length imgs) imgs 0 [] s2")
  from assms c st l obtain ids where ids: "r3 = Returned ids"
    by (cases r3) (auto simp: send_today_def s2_def)
  note lp = send_loop_run [OF l]
  note lb = send_loop_batch [OF l [unfolded ids]]
  define s4 where "s4 = s3\<lparr>image_message_ids := Some ids\<rparr>"
  obtain r5 s5 where d: "say env (Delete c st) s4 = (r5, s5)"
    by (cases "say env (Delete c st) s4")
  note d1 = say_run [OF d]
  from assms c st l ids d obtain u where u: "r5 = Returned u"
    by (cases r5) (auto simp: send_today_def s2_def s4_def)
  with assms c st l ids d have f: "say env (SendMessage c AllDelivered) s5 = (Returned (), s')"
    by (simp add: send_today_def s2_def s4_def)
  note f1 = say_run [OF f]
  have t: "trace s' = trace s @ (new_events s s1 @ new_events s1 s2 @ new_events s2 s3 @
             new_events s4 s5 @ new_events s5 s')"
    using c1(4) cl lp d1(3) f1(3) by (simp add: grows_def s4_def)
  have fd: "filter in_batch (new_events s1 s2) = []"
    using cl by (simp add: filter_in_batch_deletes)
  have fl: "filter in_batch (new_events s2 s3) = new_events s2 s3"
    using lb by (simp add: filter_in_batch_all)
  have f0: "fetched (new_events s1 s2) = []"
    using cl by (simp add: fetched_deletes)
  show ?thesis
    using c1(5) cl lp lb d1(4) f1(4) fd fl f0
    by (simp add: new_events_eq [OF t] obs_append fetched_append)
qed

lemma get_images_batch:
  assumes key: "activation_key s = Some k"
    and found: "find_by_key env (length (trace s)) k = Some d"
    and resolved: "today_loop (today env) (links_of d) [] = Returned imgs"
    and nonempty: "imgs \<noteq> []"
    and ret: "get_images env c s = (Returned (), s')"
  shows "batch_ids c (length imgs) 1 imgs (filter in_batch (new_events s s')) =
           Some (map snd (deliveries (new_events s s'))) \<and>
         fetched (new_events s s') = imgs"
proof -
  define s1 where "s1 = s\<lparr>trace := trace s @ [Lookup k]\<rparr>"
  have links: "links_of d \<noteq> []"
    using resolved nonempty by auto
  have st: "send_today env c imgs s1 = (Returned (), s')"
    using ret key found links resolved nonempty
    by (simp add: get_images_def find_one_eq s1_def)
  note r1 = send_today_run [OF st]
  note b1 = send_today_batch [OF st]
  have t: "trace s' = trace s @ (Lookup k # new_events s1 s')"
    using r1 by (simp add: grows_def s1_def)
  show ?thesis
    using b1 by (simp add: new_events_eq [OF t])
qed


section \<open>The filter for today\<close>

lemma today_loop_acc:
  "today_loop tod links acc =
     (case today_loop tod links [] of Returned urls \<Rightarrow> Returned (acc @ urls) | Raised e \<Rightarrow> Raised e)"
proof (induction links arbitrary: acc)
  case Nil
  show ?case by simp
next
  case (Cons e rest)
  have ih: "today_loop tod rest (a # as) =
      (case today_loop tod rest [] of Returned urls \<Rightarrow> Returned ((a # as) @ urls) | Raised e \<Rightarrow> Raised e)"
    for a as
    by (rule Cons.IH)
  show ?case
  proof (cases "acc")
    case Nil
    then show ?thesis by (cases e) (simp_all split: result.splits option.splits)
  next
    case (Cons a as)
    then show ?thesis
      by (cases e) (simp_all add: ih split: result.splits option.splits)
  qed
qed

lemma today_loop_step:
  "today_loop tod (e # rest) [] =
     (if deliverable tod e
      then (case url_of e of
              None \<Rightarrow> Raised (KeyError ''url'')
            | Some u \<Rightarrow> (case today_loop tod rest [] of
                          Returned urls \<Rightarrow> Returned (u # urls) | Raised x \<Rightarrow> Raised x))
      else today_loop tod rest [])"
  by (cases e) (simp_all add: today_loop_acc [of _ _ "[_]"] split: option.splits result.splits)

text \<open>A dict dated today without a \<open>url\<close> is outside the data model; for it
  \<open>img['url']\<close> raises.\<close>

lemma today_loop_missing_url:
  "today_loop tod (Dict (fmap_of_list [(''date'', Str tod)]) # rest) acc = Raised (KeyError ''url'')"
  by simp

text \<open>
  Claim C8. For every record and every day, the filter of \<open>get_images\<close> returns
  exactly the URLs of the entries that are bare strings or dicts dated that day, in the
  order of the record, and the empty list (not an error) when no entry matches. An entry
  of the record is a bare URL or a pair of \<open>url\<close> and \<open>date\<close>, so every dated entry
  has a URL to return.
\<close>

theorem resolve_today:
  assumes "\<forall>e \<in> set links. deliverable tod e \<longrightarrow> url_of e \<noteq> None"
  shows "today_loop tod links [] = Returned (resolveToday_spec tod links) \<and>
         map Some (resolveToday_spec tod links) = map url_of (filter (deliverable tod) links) \<and>
         (filter (deliverable tod) links = [] \<longrightarrow> today_loop tod links [] = Returned [])"
  using assms
proof (induction links)
  case Nil
  show ?case by (simp add: resolveToday_spec_def map_filter_simps)
next
  case (Cons e rest)
  then have ih: "today_loop tod rest [] = Returned (resolveToday_spec tod rest)"
    "map Some (resolveToday_spec tod rest) = map url_of (filter (deliverable tod) rest)"
    by simp_all
  show ?case
  proof (cases "deliverable tod e")
    case False
    then show ?thesis
      using ih by (simp add: today_loop_step resolveToday_spec_def)
  next
    case True
    with Cons.prems obtain u where "url_of e = Some u"
      by auto
    with True show ?thesis
      using ih by (simp add: today_loop_step resolveToday_spec_def map_filter_simps)
  qed
qed

theorem resolve_today_witness:
  "today_loop ''2024-01-01'' (links_of rec_K1) [] =
     Returned [Str ''http://a/1.png'', Str ''http://a/2.png''] \<and>
   today_loop ''2024-01-02'' (links_of rec_K1) [] = Returned [Str ''http://a/1.png''] \<and>
   today_loop ''2024-01-02'' [Dict (fmap_of_list [(''url'', Str ''http://a/2.png''), (''date'', Str ''2024-01-01'')])] []
     = Returned []"
  using resolve_today [of "links_of rec_K1" "''2024-01-01''"]
    resolve_today [of "links_of rec_K1" "''2024-01-02''"]
    resolve_today [of "[Dict (fmap_of_list [(''url'', Str ''http://a/2.png''), (''date'', Str ''2024-01-01'')])]" "''2024-01-02''"]
  by (simp add: rec_K1_def links_of_def resolveToday_spec_def map_filter_simps)

text \<open>
  Claim C10. An entry that is neither a string nor a dict with a \<open>date\<close> key is
  skipped by the filter: the result, list or error, is the one of the record without the
  entry. A dict with only a \<open>url\<close> is such an entry.
\<close>

theorem undated_entry_dropped:
  "(undated e \<longrightarrow> today_loop tod (xs @ e # ys) acc = today_loop tod (xs @ ys) acc) \<and>
   undated (Dict (fmap_of_list [(''url'', u)]))"
proof -
  have "today_loop tod (xs @ e # ys) acc = today_loop tod (xs @ ys) acc" if "undated e"
  proof (induction xs arbitrary: acc)
    case Nil
    from that show ?case by (cases e) simp_all
  next
    case (Cons x xs)
    show ?case
      by (cases x) (simp_all add: Cons.IH split: option.splits)
  qed
  then show ?thesis by simp
qed

theorem undated_entry_dropped_witness:
  "undated (Dict (fmap_of_list [(''url'', Str ''http://a/9.png'')])) \<and>
   today_loop ''2024-01-01''
     [Str ''http://a/1.png'', Dict (fmap_of_list [(''url'', Str ''http://a/9.png'')]), Num 3, Str ''http://a/3.png''] []
   = Returned [Str ''http://a/1.png'', Str ''http://a/3.png'']"
  using undated_entry_dropped [of "Dict (fmap_of_list [(''url'', Str ''http://a/9.png'')])" "''2024-01-01''"
      "[Str ''http://a/1.png'']" "[Num 3, Str ''http://a/3.png'']" "[]"]
  by simp

section \<open>Logout\<close>

text \<open>
  Claim C2. Logout is to attempt a delete for every id in \<open>image_message_ids\<close> and
  only then reset the session. Both \<open>logout_command\<close> and \<open>end_session\<close> clear
  \<open>context.user_data\<close> first, so \<open>clear_previous_images\<close> finds no ids: for the
  session with the delivered messages 41 and 42, no delete is attempted and the only
  call is the confirmation.
\<close>

theorem logout_skips_cleanup:
  "delivered logged_in = [41, 42] \<and>
   delete_attempts (new_events logged_in (snd (logout_command env_ok 7 logged_in))) = [] \<and>
   delete_attempts (new_events logged_in (snd (end_session env_ok 7 logged_in))) = [] \<and>
   new_events logged_in (snd (logout_command env_ok 7 logged_in)) = [Call (ReplyText LoggedOut) (Ok 100)] \<and>
   new_events logged_in (snd (end_session env_ok 7 logged_in)) = [Call (EditText LoggedOut) (Ok 100)]"
  by (simp add: world_defs handler_defs clear_user_data_def logout_command_def end_session_def)

section \<open>Key validation\<close>

text \<open>The whitespace that \<open>strip\<close> removes includes the two code points above
  127, and only the ends are trimmed.\<close>

lemma strip_latin1:
  "strip (CHR 0xA0 # '' K 1'' @ [CHR 0x85, CHR 0x0A]) = ''K 1''"
  by (simp add: strip_def is_space_def)

text \<open>
  Claim C3. For an input whose stripped value is not in the collection, \<open>validate_key\<close>
  is claimed to leave \<open>activation_key\<close> unset. It stores the stripped input before the
  lookup: from the empty session and the input \<open>" nope "\<close>, the key \<open>nope\<close> is stored.
\<close>

theorem validate_unknown_key_counterexample:
  "\<not> (find_by_key env_ok 0 (strip '' nope '') = None \<longrightarrow>
        activation_key (snd (validate_key env_ok '' nope '' no_session)) = activation_key no_session)"
  by (simp add: world_defs handler_defs no_session_def validate_key_def strip_def is_space_def)

text \<open>
  Claim C3, as the code has it. For an input whose stripped value is not in the
  collection, \<open>validate_key\<close> looks the key up, sends the retry prompt and returns
  \<open>WAITING_FOR_KEY\<close> (or the exception of that reply); it has stored the stripped input
  under \<open>activation_key\<close> and changed no other key. \<open>get_images\<close> and
  \<open>refresh_images\<close> never change \<open>activation_key\<close>.
\<close>

theorem validate_unknown_key:
  assumes "find_by_key env (length (trace s)) (strip raw) = None"
  shows "validate_key env raw s =
           ((case net env (Suc (length (trace s))) (ReplyText InvalidKey) of
               Ok m \<Rightarrow> Returned WAITING_FOR_KEY | Err e \<Rightarrow> Raised (CallError e)),
            s\<lparr>activation_key := Some (strip raw),
              trace := trace s @ [Lookup (strip raw),
                Call (ReplyText InvalidKey) (net env (Suc (length (trace s))) (ReplyText InvalidKey))]\<rparr>) \<and>
         activation_key (snd (get_images env c t)) = activation_key t \<and>
         activation_key (snd (refresh_images env c t)) = activation_key t"
proof -
  have "activation_key (snd (get_images env c t)) = activation_key t"
    using get_images_run [of env c t "fst (get_images env c t)" "snd (get_images env c t)"]
    by (simp add: keeps_keys_def)
  moreover have "activation_key (snd (refresh_images env c t)) = activation_key t"
    using refresh_images_run [of env c t "fst (refresh_images env c t)" "snd (refresh_images env c t)"]
    by simp
  ultimately show ?thesis
    using assms by (simp add: validate_key_def find_one_eq say_eq Let_def split: reply.splits)
qed

theorem validate_unknown_key_witness:
  "find_by_key env_ok 0 (strip '' nope '') = None \<and>
   validate_key env_ok '' nope '' no_session =
     (Returned WAITING_FOR_KEY,
      no_session\<lparr>activation_key := Some ''nope'',
        trace := [Lookup ''nope'', Call (ReplyText InvalidKey) (Ok 101)]\<rparr>) \<and>
   activation_key (snd (get_images env_ok 7 logged_in)) = Some ''K1'' \<and>
   activation_key (snd (refresh_images env_ok 7 logged_in)) = Some ''K1''"
  using validate_unknown_key [where raw = "'' nope ''" and env = env_ok and c = 7 and t = logged_in
      and s = no_session]
  by (simp add: world_defs no_session_def strip_def is_space_def)

section \<open>Revoked key\<close>

text \<open>
  Claim C9. With a key that the collection no longer holds, \<open>get_images\<close> and
  \<open>refresh_images\<close> are claimed to clear the session. They leave it as it is: after
  either, the session differs from its cleared form.
\<close>

theorem revoked_key_counterexample:
  "activation_key logged_in = Some ''K1'' \<and>
   find_by_key env_revoked 0 ''K1'' = None \<and>
   snd (get_images env_revoked 7 logged_in) \<noteq> clear_user_data (snd (get_images env_revoked 7 logged_in)) \<and>
   snd (refresh_images env_revoked 7 logged_in) \<noteq> clear_user_data (snd (refresh_images env_revoked 7 logged_in))"
  by (simp add: world_defs handler_defs env_revoked_def clear_user_data_def)

text \<open>
  Claim C9, as the code has it. With a key that the collection no longer holds,
  \<open>get_images\<close> and \<open>refresh_images\<close> do the same: one lookup, then the notice that
  the key is no longer valid, and nothing else (no filter, no delete, no download, no
  send). Every key of the session keeps its value; the handler returns unless the notice
  itself raises.
\<close>

theorem revoked_key_notice_only:
  assumes "activation_key s = Some k"
    and "find_by_key env (length (trace s)) k = None"
  shows "get_images env c s =
           ((case net env (Suc (length (trace s))) (EditText KeyRevoked) of
               Ok m \<Rightarrow> Returned () | Err e \<Rightarrow> Raised (CallError e)),
            s\<lparr>trace := trace s @ [Lookup k,
                Call (EditText KeyRevoked) (net env (Suc (length (trace s))) (EditText KeyRevoked))]\<rparr>) \<and>
         refresh_images env c s = get_images env c s"
  using assms by (simp add: get_images_revoked refresh_revoked say_eq)

theorem revoked_key_notice_only_witness:
  "activation_key logged_in = Some ''K1'' \<and>
   find_by_key env_revoked 0 ''K1'' = None \<and>
   get_images env_revoked 7 logged_in =
     (Returned (), logged_in\<lparr>trace := [Lookup ''K1'', Call (EditText KeyRevoked) (Ok 101)]\<rparr>) \<and>
   refresh_images env_revoked 7 logged_in = get_images env_revoked 7 logged_in"
  using revoked_key_notice_only [where s = logged_in and k = "''K1''" and env = env_revoked and c = 7]
  by (simp add: world_defs env_revoked_def)

section \<open>Delivery\<close>

text \<open>
  Claim C4. After a successful \<open>get_images\<close> with images for today, \<open>user_data\<close>
  is claimed to hold the record just fetched and \<open>last_updated\<close> the time of the fetch.
  \<open>get_images\<close> writes neither: the session validated at time 5 with \<open>rec_K1\<close> still
  holds both after a delivery at time 9 from \<open>rec_three\<close>.
\<close>

theorem deliver_cache_counterexample:
  "activation_key logged_in = Some ''K1'' \<and>
   find_by_key env_ok 0 ''K1'' = Some rec_three \<and>
   today_loop (today env_ok) (links_of rec_three) [] \<noteq> Returned [] \<and>
   fst (get_images env_ok 7 logged_in) = Returned () \<and>
   user_data (snd (get_images env_ok 7 logged_in)) \<noteq> Some rec_three \<and>
   last_updated (snd (get_images env_ok 7 logged_in)) \<noteq> Some (now env_ok)"
  by (simp add: world_defs handler_defs)

text \<open>
  Claim C4, as the code has it. After a \<open>get_images\<close> that returned, with a non-empty
  set of images for today, \<open>image_message_ids\<close> is the list of the message ids the
  sending loop produced, in order; \<open>user_data\<close> and \<open>last_updated\<close> hold what they
  held before.
\<close>

theorem deliver_stores_ids_only:
  assumes "activation_key s = Some k"
    and "find_by_key env (length (trace s)) k = Some fresh"
    and "today_loop (today env) (links_of fresh) [] = Returned imgs"
    and "imgs \<noteq> []"
    and "get_images env c s = (Returned (), s')"
  shows "image_message_ids s' = Some (map snd (deliveries (new_events s s'))) \<and>
         user_data s' = user_data s \<and> last_updated s' = last_updated s"
  using get_images_sends [OF assms] get_images_run [OF assms(5)]
  by (simp add: keeps_keys_def)

theorem deliver_stores_ids_only_witness:
  "image_message_ids (snd (get_images env_ok 7 logged_in)) = Some [105, 107, 109] \<and>
   deliveries (new_events logged_in (snd (get_images env_ok 7 logged_in))) = [(1, 105), (2, 107), (3, 109)] \<and>
   user_data (snd (get_images env_ok 7 logged_in)) = Some rec_K1 \<and>
   last_updated (snd (get_images env_ok 7 logged_in)) = Some 5"
proof -
  have ret: "get_images env_ok 7 logged_in = (Returned (), snd (get_images env_ok 7 logged_in))"
    by (simp add: world_defs handler_defs)
  have d: "deliveries (new_events logged_in (snd (get_images env_ok 7 logged_in))) = [(1, 105), (2, 107), (3, 109)]"
    by (simp add: world_defs handler_defs)
  show ?thesis
    using deliver_stores_ids_only [where s = logged_in and k = "''K1''" and env = env_ok
        and fresh = rec_three and c = 7 and s' = "snd (get_images env_ok 7 logged_in)"
        and imgs = "[Str ''http://a/1.png'', Str ''http://a/2.png'', Str ''http://a/3.png'']", OF _ _ _ _ ret]
    by (simp add: d) (simp add: world_defs links_of_def)
qed




section \<open>Refresh\<close>

text \<open>
  Claim C5. When the fetched \<open>image_links\<close> equal the cached ones, the whole cached
  record is claimed to stay as it is. \<open>refresh_images\<close> stores the fetched record before
  it compares: a record that differs only in \<open>name\<close> replaces the cached one.
\<close>

theorem refresh_unchanged_counterexample:
  "activation_key logged_in = Some ''K1'' \<and>
   find_by_key env_renamed 0 ''K1'' = Some rec_renamed \<and>
   links_of rec_renamed = cached_links logged_in \<and>
   user_data (snd (refresh_images env_renamed 7 logged_in)) \<noteq> user_data logged_in"
  by (simp add: world_defs handler_defs rec_renamed_def env_renamed_def)

text \<open>
  Claim C5, as the code has it. When the fetched \<open>image_links\<close> equal the cached ones,
  \<open>refresh_images\<close> replaces \<open>user_data\<close> by the fetched record (whose image links
  are the cached ones), leaves every other key as it is, and its only call is the notice
  that nothing is new; it returns unless that notice raises.
\<close>

theorem refresh_unchanged_replaces_cache:
  assumes "activation_key s = Some k"
    and "find_by_key env (length (trace s)) k = Some fresh"
    and "links_of fresh = cached_links s"
  shows "refresh_images env c s =
           ((case net env (Suc (length (trace s))) (EditText UpToDate) of
               Ok m \<Rightarrow> Returned () | Err e \<Rightarrow> Raised (CallError e)),
            s\<lparr>user_data := Some fresh,
              trace := trace s @ [Lookup k,
                Call (EditText UpToDate) (net env (Suc (length (trace s))) (EditText UpToDate))]\<rparr>) \<and>
         cached_links (snd (refresh_images env c s)) = cached_links s"
  using assms by (simp add: refresh_same_links say_eq cached_links_def)

theorem refresh_unchanged_replaces_cache_witness:
  "links_of rec_renamed = cached_links logged_in \<and>
   refresh_images env_renamed 7 logged_in =
     (Returned (), logged_in\<lparr>user_data := Some rec_renamed,
        trace := [Lookup ''K1'', Call (EditText UpToDate) (Ok 101)]\<rparr>)"
  using refresh_unchanged_replaces_cache [where s = logged_in and k = "''K1''" and env = env_renamed
      and fresh = rec_renamed and c = 7]
  by (simp add: world_defs rec_renamed_def env_renamed_def links_of_def cached_links_def)

text \<open>
  Claim C6. When the fetched \<open>image_links\<close> equal the cached ones, \<open>refresh_images\<close>
  issues no delete, no send and no download, and \<open>image_message_ids\<close> is untouched.
\<close>

theorem refresh_unchanged_no_transport:
  assumes "activation_key s = Some k"
    and "find_by_key env (length (trace s)) k = Some fresh"
    and "links_of fresh = cached_links s"
    and "refresh_images env c s = (r, s')"
  shows "(\<forall>ev \<in> set (new_events s s'). \<not> is_delete ev \<and> \<not> is_send ev \<and> \<not> is_fetch ev) \<and>
         delete_attempts (new_events s s') = [] \<and> deliveries (new_events s s') = [] \<and>
         image_message_ids s' = image_message_ids s"
proof -
  have "s' = s\<lparr>trace := trace s @ [Lookup k], user_data := Some fresh,
          trace := trace s @ [Lookup k, Call (EditText UpToDate) (net env (Suc (length (trace s))) (EditText UpToDate))]\<rparr>"
    using assms by (simp add: refresh_same_links say_eq)
  then show ?thesis
    by (simp add: new_events_def)
qed

theorem refresh_unchanged_no_transport_witness:
  "links_of rec_K1 = cached_links logged_in \<and>
   delete_attempts (new_events logged_in (snd (refresh_images env_same 7 logged_in))) = [] \<and>
   deliveries (new_events logged_in (snd (refresh_images env_same 7 logged_in))) = [] \<and>
   image_message_ids (snd (refresh_images env_same 7 logged_in)) = Some [41, 42]"
  using refresh_unchanged_no_transport [where s = logged_in and k = "''K1''"
      and env = env_same and fresh = rec_K1 and c = 7
      and r = "fst (refresh_images env_same 7 logged_in)"
      and s' = "snd (refresh_images env_same 7 logged_in)"]
  by (simp add: world_defs env_same_def links_of_def cached_links_def)

text \<open>
  Claim C1. On a change \<open>refresh_images\<close> is claimed to deliver from the record it
  fetched, with exactly two lookups. It hands over to \<open>get_images\<close>, which queries the
  collection again: when the record changes between the two queries, the cache holds the
  first (three images) and the one image of the second is what is downloaded. And when
  the transport rejects the notice of the change, the handler ends after one lookup.
\<close>

theorem refresh_reuse_counterexample:
  "fst (find_one env_moving ''K1'' logged_in) = Some rec_three \<and>
   user_data (snd (refresh_images env_moving 7 logged_in)) = Some rec_three \<and>
   today_loop (today env_moving) (links_of rec_three) [] =
     Returned [Str ''http://a/1.png'', Str ''http://a/2.png'', Str ''http://a/3.png''] \<and>
   fst (refresh_images env_moving 7 logged_in) = Returned () \<and>
   fetched (new_events logged_in (snd (refresh_images env_moving 7 logged_in))) = [Str ''http://a/9.png''] \<and>
   lookups (new_events logged_in (snd (refresh_images env_moving 7 logged_in))) = [''K1'', ''K1''] \<and>
   lookups (new_events logged_in (snd (refresh_images env_notice_rejected 7 logged_in))) = [''K1'']"
  by (simp add: world_defs handler_defs rec_nine_def env_moving_def env_notice_rejected_def)

text \<open>
  Claim C1, as the code has it. When the fetched \<open>image_links\<close> differ from the cached
  ones, \<open>refresh_images\<close> stores the fetched record in \<open>user_data\<close> and never queries
  the collection more than twice. If the transport rejects the notice of the change, that
  one lookup is all. Once the notice is accepted, a delete is attempted for every id
  delivered before and \<open>get_images\<close> runs as a whole: its lookup is the second and last
  one, and a delivery that returns has downloaded and sent, in order, the images resolved
  from the record of that second lookup, and stored their ids.
\<close>

theorem refresh_changed_refetches:
  assumes "activation_key s = Some k"
    and "find_by_key env (length (trace s)) k = Some fresh"
    and "links_of fresh \<noteq> cached_links s"
    and "refresh_images env c s = (r, s')"
  shows "user_data s' = Some fresh \<and>
         length (lookups (new_events s s')) \<le> 2 \<and>
         ((\<forall>m. net env (Suc (length (trace s))) (EditText FoundNew) \<noteq> Ok m) \<longrightarrow>
            lookups (new_events s s') = [k]) \<and>
         ((\<exists>m. net env (Suc (length (trace s))) (EditText FoundNew) = Ok m) \<longrightarrow>
            lookups (new_events s s') = [k, k] \<and>
            take (length (delivered s)) (delete_attempts (new_events s s')) = delivered s \<and>
            (\<forall>again imgs. r = Returned () \<and>
                 find_by_key env (length (trace s) + 2 + length (delivered s)) k = Some again \<and>
                 today_loop (today env) (links_of again) [] = Returned imgs \<and> imgs \<noteq> [] \<longrightarrow>
               (\<exists>ids. image_message_ids s' = Some ids \<and>
                  batch_ids c (length imgs) 1 imgs (filter in_batch (new_events s s')) = Some ids) \<and>
               fetched (new_events s s') = imgs))"
proof -
  define s2 where "s2 = s\<lparr>trace := trace s @ [Lookup k], user_data := Some fresh\<rparr>"
  obtain r3 s3 where n: "say env (EditText FoundNew) s2 = (r3, s3)"
    by (cases "say env (EditText FoundNew) s2")
  note y = say_run [OF n]
  let ?rep = "net env (Suc (length (trace s))) (EditText FoundNew)"
  have t3: "trace s3 = trace s @ [Lookup k, Call (EditText FoundNew) ?rep]"
    using y(4) y(3) by (simp add: grows_def s2_def)
  have k3: "user_data s3 = Some fresh" "activation_key s3 = Some k"
    "image_message_ids s3 = image_message_ids s"
    using y(1) y(2) assms(1) by (simp_all add: keeps_keys_def s2_def)
  have le: "length (lookups (new_events s s')) \<le> 2"
    using refresh_images_run [OF assms(4)] by simp
  show ?thesis
  proof (cases r3)
    case (Raised e)
    with assms n have "s' = s3"
      by (simp add: refresh_changed_links s2_def)
    moreover have "\<not> (\<exists>m. ?rep = Ok m)"
      using y(5) Raised by (simp add: s2_def)
    ultimately show ?thesis
      using k3 le by (simp add: new_events_eq [OF t3])
  next
    case (Returned u)
    then have acc: "\<exists>m. ?rep = Ok m"
      using y(5) by (simp add: s2_def)
    define s4 where "s4 = clear_previous_images env c s3"
    note cl = clear_previous_images_run [OF s4_def [symmetric]]
    from assms n Returned have gi: "get_images env c s4 = (r, s')"
      by (simp add: refresh_changed_links s2_def s4_def)
    note g = get_images_run [OF gi]
    have k4: "activation_key s4 = Some k" "user_data s4 = Some fresh"
      using cl k3 by (simp_all add: keeps_keys_def)
    have d3: "delivered s3 = delivered s"
      using k3(3) by (simp add: delivered_def)
    have len4: "length (trace s4) = length (trace s) + 2 + length (delivered s)"
      using clear_previous_images_length [of env c s3] t3 d3 by (simp add: s4_def)
    have t: "trace s' = trace s @ ([Lookup k, Call (EditText FoundNew) ?rep]
               @ new_events s3 s4 @ new_events s4 s')"
      using t3 cl g by (simp add: grows_def)
    note ne = new_events_eq [OF t]
    have del: "delete_attempts (new_events s s') = delivered s @ delete_attempts (new_events s4 s')"
      using cl k3(3) by (simp add: ne obs_append delivered_def)
    have dlv: "deliveries (new_events s s') = deliveries (new_events s4 s')"
      using cl by (simp add: ne obs_append)
    have flt: "filter in_batch (new_events s s') = filter in_batch (new_events s4 s')"
      using cl by (simp add: ne filter_in_batch_deletes)
    have fch: "fetched (new_events s s') = fetched (new_events s4 s')"
      using cl by (simp add: ne fetched_append fetched_deletes)
    have "(\<exists>ids. image_message_ids s' = Some ids \<and>
             batch_ids c (length imgs) 1 imgs (filter in_batch (new_events s s')) = Some ids) \<and>
          fetched (new_events s s') = imgs"
      if "r = Returned ()"
        and f2: "find_by_key env (length (trace s) + 2 + length (delivered s)) k = Some again"
        and "today_loop (today env) (links_of again) [] = Returned imgs"
        and "imgs \<noteq> []" for again imgs
    proof -
      from f2 have f4: "find_by_key env (length (trace s4)) k = Some again"
        by (simp add: len4)
      from gi that(1) have gr: "get_images env c s4 = (Returned (), s')"
        by simp
      from get_images_sends [OF k4(1) f4 that(3) that(4) gr refl]
        get_images_batch [OF k4(1) f4 that(3) that(4) gr]
      show ?thesis
        unfolding flt fch dlv by blast
    qed
    moreover have "lookups (new_events s s') = [k, k]"
      using cl g k4 by (simp add: ne obs_append)
    moreover have "user_data s' = Some fresh"
      using g k4 by (simp add: keeps_keys_def)
    ultimately show ?thesis
      using le del acc by simp
  qed
qed

theorem refresh_changed_refetches_witness:
  "links_of rec_three \<noteq> cached_links logged_in \<and>
   user_data (snd (refresh_images env_moving 7 logged_in)) = Some rec_three \<and>
   lookups (new_events logged_in (snd (refresh_images env_moving 7 logged_in))) = [''K1'', ''K1''] \<and>
   delete_attempts (new_events logged_in (snd (refresh_images env_moving 7 logged_in))) = [41, 42, 105] \<and>
   fetched (new_events logged_in (snd (refresh_images env_moving 7 logged_in))) = [Str ''http://a/9.png''] \<and>
   image_message_ids (snd (refresh_images env_moving 7 logged_in)) = Some [107]"
proof -
  have v: "delete_attempts (new_events logged_in (snd (refresh_images env_moving 7 logged_in))) = [41, 42, 105]"
    "image_message_ids (snd (refresh_images env_moving 7 logged_in)) = Some [107]"
    "fst (refresh_images env_moving 7 logged_in) = Returned ()"
    by (simp_all add: world_defs handler_defs rec_nine_def env_moving_def)
  have k: "activation_key logged_in = Some ''K1''"
    and f: "find_by_key env_moving (length (trace logged_in)) ''K1'' = Some rec_three"
    and d: "links_of rec_three \<noteq> cached_links logged_in"
    and n: "net env_moving (Suc (length (trace logged_in))) (EditText FoundNew) = Ok 101"
    and f2: "find_by_key env_moving (length (trace logged_in) + 2 + length (delivered logged_in)) ''K1''
        = Some rec_nine"
    and t: "today_loop (today env_moving) (links_of rec_nine) [] = Returned [Str ''http://a/9.png'']"
    by (simp_all add: world_defs rec_nine_def env_moving_def links_of_def cached_links_def delivered_def)
  from refresh_changed_refetches [OF k f d prod.collapse [symmetric], of 7] n f2 t v(3)
  have "user_data (snd (refresh_images env_moving 7 logged_in)) = Some rec_three"
    "lookups (new_events logged_in (snd (refresh_images env_moving 7 logged_in))) = [''K1'', ''K1'']"
    "fetched (new_events logged_in (snd (refresh_images env_moving 7 logged_in))) = [Str ''http://a/9.png'']"
    by auto
  with d v show ?thesis by simp
qed

end
